theory Spec2Isabelle
  imports Main
begin

section \<open>Data model of \<open>src/app.js\<close>\<close>

text \<open>
  The service keeps one Mongo collection, \<open>UserToken\<close>, and talks to one gateway,
  \<open>admin.messaging()\<close>. Both are outside the file, so the model takes them as
  parameters: the collection is a list of documents in natural order, the gateway and the
  store's failures are oracles.

  \<open>userTokenSchema\<close> (lines 25-34): \<open>fcmTokens\<close> is an array of sub-documents
  \<open>{token, device, lastUsed}\<close>; \<open>device\<close> is not required, \<open>lastUsed\<close> is a date,
  here the milliseconds of \<open>new Date()\<close>.
\<close>

record tokenInfo =
  token :: string
  device :: "string option"
  lastUsed :: nat

record userToken =
  userId :: string
  fcmTokens :: "tokenInfo list"

type_synonym store = "userToken list"

text \<open>The envelope built at lines 95-102 and 151-160.\<close>

record notification =
  title :: string
  body :: string

record message =
  notification :: notification
  data :: "(string \<times> string) list"
  token :: string

text \<open>
  Every call the handlers make on a collaborator, in the order the handler issues it:
  the five store operations and the gateway's \<open>send\<close>.
\<close>

datatype call =
    FindOneAndUpdate string tokenInfo
  | FindOne string
  | Find "string list"
  | UpdateOne string string
  | UpdateMany string
  | Send message

text \<open>
  \<open>admin.messaging().send(message)\<close> resolves with a message id or rejects with an error
  whose \<open>code\<close> may be absent. The gateway is taken to answer every envelope with a
  promise: a \<open>send\<close> that throws before it returns one is not modelled.
\<close>

datatype send_outcome = Resolved string | Rejected "string option"

text \<open>
  The collaborators of one request. \<open>gateway k m\<close> is the outcome of the \<open>k\<close>-th
  envelope of the request (its index in \<open>messages\<close>); \<open>store_error c\<close> is
  \<open>Some msg\<close> when the store rejects the call \<open>c\<close> with \<open>error.message = msg\<close>.
\<close>

record env =
  gateway :: "nat \<Rightarrow> message \<Rightarrow> send_outcome"
  store_error :: "call \<Rightarrow> string option"

text \<open>
  The JSON bodies the handlers answer with. \<open>Sent n f\<close> is status 200 with
  \<open>message: `Successfully sent n notifications`\<close> and \<open>failed: f\<close>.
\<close>

datatype response =
    Registered
  | Sent nat nat
  | NotFound string
  | ServerError string

section \<open>The store operations the handlers use\<close>

text \<open>
  \<open>$addToSet\<close>: the element is appended unless an equal element is already there.
  Elements are compared on the three fields the schema declares and the handler writes.
  Mongoose also gives every sub-document an \<open>_id\<close> of its own, so the update in the
  database appends even an element equal in these fields: where the model keeps one
  record, the database may keep two.
\<close>

definition addToSet :: "'a list \<Rightarrow> 'a \<Rightarrow> 'a list" where
  "addToSet xs e = (if e \<in> set xs then xs else xs @ [e])"

text \<open>
  \<open>findOneAndUpdate({userId}, {$addToSet: {fcmTokens: e}}, {upsert: true})\<close>: the first
  document of that user is updated; when there is none, one is inserted.
\<close>

fun findOneAndUpdate :: "store \<Rightarrow> string \<Rightarrow> tokenInfo \<Rightarrow> store" where
  "findOneAndUpdate [] uid e = [\<lparr>userId = uid, fcmTokens = [e]\<rparr>]"
| "findOneAndUpdate (d # ds) uid e =
     (if userId d = uid then d\<lparr>fcmTokens := addToSet (fcmTokens d) e\<rparr> # ds
      else d # findOneAndUpdate ds uid e)"

text \<open>\<open>findOne({userId})\<close>: the first document of that user, or \<open>null\<close>.\<close>

definition findOne :: "store \<Rightarrow> string \<Rightarrow> userToken option" where
  "findOne st uid = find (\<lambda>d. userId d = uid) st"

text \<open>\<open>find({userId: {$in: userIds}})\<close>: every document whose user is listed, once.\<close>

definition find_in :: "store \<Rightarrow> string list \<Rightarrow> userToken list" where
  "find_in st userIds = filter (\<lambda>d. userId d \<in> set userIds) st"

section \<open>POST /register-token (lines 48-78)\<close>

definition register_token ::
  "env \<Rightarrow> nat \<Rightarrow> store \<Rightarrow> string \<Rightarrow> string \<Rightarrow> string option \<Rightarrow> response \<times> store" where
  "register_token e now st uid fcmToken deviceInfo =
     (let elem = \<lparr>tokenInfo.token = fcmToken, device = deviceInfo, lastUsed = now\<rparr> in
      case store_error e (FindOneAndUpdate uid elem) of
        Some err \<Rightarrow> (ServerError err, st)
      | None \<Rightarrow> (Registered, findOneAndUpdate st uid elem))"

section \<open>What the two dispatch handlers share\<close>

text \<open>The test of lines 110 and 174 on \<open>error.code\<close>.\<close>

definition is_invalid_token :: "string option \<Rightarrow> bool" where
  "is_invalid_token code \<longleftrightarrow>
     code = Some ''messaging/invalid-registration-token'' \<or>
     code = Some ''messaging/registration-token-not-registered''"

text \<open>One envelope per stored token (lines 95-102, 152-159); \<open>data || {}\<close>.\<close>

definition envelope ::
  "string \<Rightarrow> string \<Rightarrow> (string \<times> string) list option \<Rightarrow> tokenInfo \<Rightarrow> message" where
  "envelope t b d info =
     \<lparr>notification = \<lparr>title = t, body = b\<rparr>,
      data = (case d of None \<Rightarrow> [] | Some x \<Rightarrow> x),
      token = tokenInfo.token info\<rparr>"

text \<open>
  \<open>Promise.all\<close>: the values in order when every promise resolves (\<open>Inr\<close>), the
  rejection otherwise (\<open>Inl\<close>). \<open>Promise.all\<close> rejects with the rejection that comes
  first in time; of several rejections the model takes the first in index order, so the
  message of a 500 is exact only when a single promise rejects.
\<close>

fun promise_all :: "(string + 'a) list \<Rightarrow> string + 'a list" where
  "promise_all [] = Inr []"
| "promise_all (Inl err # ps) = Inl err"
| "promise_all (Inr v # ps) =
     (case promise_all ps of Inl err \<Rightarrow> Inl err | Inr vs \<Rightarrow> Inr (v # vs))"

section \<open>POST /send-notification (lines 81-133)\<close>

text \<open>
  The callback of lines 106-116 for the \<open>k\<close>-th envelope, after its \<open>send\<close> has been
  issued: what the callback's promise settles to, and the store calls it makes. The
  \<open>updateOne\<close> is awaited inside the \<open>catch\<close> block, so its rejection is the
  callback's.
\<close>

definition send_or_prune ::
  "env \<Rightarrow> string \<Rightarrow> nat \<Rightarrow> message \<Rightarrow> (string + string option) \<times> call list" where
  "send_or_prune e uid k m =
     (case gateway e k m of
        Resolved mid \<Rightarrow> (Inr (Some mid), [])
      | Rejected code \<Rightarrow>
          if is_invalid_token code then
            (case store_error e (UpdateOne uid (token m)) of
               None \<Rightarrow> (Inr None, [UpdateOne uid (token m)])
             | Some err \<Rightarrow> (Inl err, [UpdateOne uid (token m)]))
          else (Inr None, []))"

text \<open>
  The handler: the response, and the calls in the order of issue. \<open>messages.map\<close>
  issues every \<open>send\<close> before any of them settles; the callbacks' store calls are
  listed after them, in index order. The code issues them in the order the sends settle,
  some of them after a 500 has been answered: the log is exact as a collection of
  calls, not in the order of the removal writes.
\<close>

definition send_notification ::
  "env \<Rightarrow> store \<Rightarrow> string \<Rightarrow> string \<Rightarrow> string \<Rightarrow> (string \<times> string) list option \<Rightarrow>
     response \<times> call list" where
  "send_notification e st uid t b d =
     (case store_error e (FindOne uid) of
        Some err \<Rightarrow> (ServerError err, [FindOne uid])
      | None \<Rightarrow>
         (case findOne st uid of
            None \<Rightarrow> (NotFound ''No tokens found for this user'', [FindOne uid])
          | Some userTokens \<Rightarrow>
              if length (fcmTokens userTokens) = 0
              then (NotFound ''No tokens found for this user'', [FindOne uid])
              else
                let messages = map (envelope t b d) (fcmTokens userTokens);
                    settled = map (\<lambda>(k, m). send_or_prune e uid k m) (enumerate 0 messages);
                    calls = FindOne uid # map Send messages @ concat (map snd settled)
                in case promise_all (map fst settled) of
                     Inl err \<Rightarrow> (ServerError err, calls)
                   | Inr responses \<Rightarrow>
                       (let successfulSends = filter (\<lambda>r. r \<noteq> None) responses
                        in (Sent (length successfulSends)
                                 (length messages - length successfulSends), calls))))"

section \<open>POST /send-bulk-notification (lines 136-199)\<close>

text \<open>
  The callback of lines 169-179 for the \<open>k\<close>-th envelope. \<open>updateMany(...).exec()\<close> is
  neither awaited nor caught: the callback returns \<open>null\<close> whatever the store answers,
  and \<open>store_error\<close> is not consulted. What the runtime does with a rejection that
  nobody handles is outside the handler.
\<close>

definition send_or_prune_everywhere ::
  "env \<Rightarrow> nat \<Rightarrow> message \<Rightarrow> string option \<times> call list" where
  "send_or_prune_everywhere e k m =
     (case gateway e k m of
        Resolved mid \<Rightarrow> (Some mid, [])
      | Rejected code \<Rightarrow>
          if is_invalid_token code then (None, [UpdateMany (token m)]) else (None, []))"

text \<open>\<open>xs.slice(a, b)\<close> for indices \<open>0 \<le> a \<le> b\<close>; \<open>b\<close> beyond the end is clamped.\<close>

definition slice :: "'a list \<Rightarrow> nat \<Rightarrow> nat \<Rightarrow> 'a list" where
  "slice xs a b = take (b - a) (drop a xs)"

text \<open>
  The loop of lines 166-183, \<open>for (let i = 0; i < messages.length; i += batchSize)\<close>,
  with its body as a parameter: \<open>iter batch i s\<close> is the state after the iteration that
  starts at index \<open>i\<close>. With a batch size \<open>bs = 0\<close> the loop does not end, which is \<open>None\<close>.
\<close>

partial_function (option) batch_loop ::
  "nat \<Rightarrow> 'a list \<Rightarrow> ('a list \<Rightarrow> nat \<Rightarrow> 's \<Rightarrow> 's) \<Rightarrow> nat \<Rightarrow> 's \<Rightarrow> 's option" where
  [code]: "batch_loop bs messages iter i s =
     (if i < length messages
      then batch_loop bs messages iter (i + bs)
             (iter (slice messages i (i + bs)) i s)
      else Some s)"

text \<open>
  The loop body, lines 167-182: the batch's sends are issued, all of them are awaited,
  and their results are pushed. The state is \<open>results\<close> and the calls issued so far.
  The removal writes of a batch are listed in index order; the code issues them in the
  order the sends settle, which the schedule-driven machine below follows.
\<close>

fun send_batch ::
  "env \<Rightarrow> message list \<Rightarrow> nat \<Rightarrow> string option list \<times> call list \<Rightarrow>
     string option list \<times> call list" where
  "send_batch e batch i (results, calls) =
     (let settled = map (\<lambda>(k, m). send_or_prune_everywhere e k m) (enumerate i batch)
      in (results @ map fst settled, calls @ map Send batch @ concat (map snd settled)))"

text \<open>The envelopes of lines 151-160: \<open>flatMap\<close> over the documents found.\<close>

definition bulk_messages ::
  "string \<Rightarrow> string \<Rightarrow> (string \<times> string) list option \<Rightarrow> userToken list \<Rightarrow> message list" where
  "bulk_messages t b d userTokens =
     concat (map (\<lambda>user. map (envelope t b d) (fcmTokens user)) userTokens)"

text \<open>
  The handler with the batch size as a parameter; \<open>None\<close> is a request that is never
  answered.
\<close>

definition bulk_dispatch ::
  "nat \<Rightarrow> env \<Rightarrow> store \<Rightarrow> string list \<Rightarrow> string \<Rightarrow> string \<Rightarrow>
     (string \<times> string) list option \<Rightarrow> (response \<times> call list) option" where
  "bulk_dispatch bs e st userIds t b d =
     (case store_error e (Find userIds) of
        Some err \<Rightarrow> Some (ServerError err, [Find userIds])
      | None \<Rightarrow>
          let userTokens = find_in st userIds in
          if length userTokens = 0
          then Some (NotFound ''No tokens found for any users'', [Find userIds])
          else
            let messages = bulk_messages t b d userTokens in
            case batch_loop bs messages (send_batch e) 0 ([], [Find userIds]) of
              None \<Rightarrow> None
            | Some (results, calls) \<Rightarrow>
                (let successfulSends = filter (\<lambda>r. r \<noteq> None) results
                 in Some (Sent (length successfulSends)
                               (length messages - length successfulSends), calls)))"

text \<open>Line 163: \<open>const batchSize = 500\<close>.\<close>

definition batchSize :: nat where
  "batchSize = 500"

definition send_bulk_notification ::
  "env \<Rightarrow> store \<Rightarrow> string list \<Rightarrow> string \<Rightarrow> string \<Rightarrow> (string \<times> string) list option \<Rightarrow>
     (response \<times> call list) option" where
  "send_bulk_notification = bulk_dispatch batchSize"

text \<open>
  The successive values of \<open>batch\<close> (line 167): the loop run with a body that only
  records the slice it is given.
\<close>

definition batches :: "nat \<Rightarrow> 'a list \<Rightarrow> 'a list list option" where
  "batches bs messages = batch_loop bs messages (\<lambda>batch i gs. gs @ [batch]) 0 []"

section \<open>Reading the call log\<close>

text \<open>The observers the properties below are stated with.\<close>

fun is_send :: "call \<Rightarrow> bool" where
  "is_send (Send m) = True"
| "is_send c = False"

fun is_resolved :: "send_outcome \<Rightarrow> bool" where
  "is_resolved (Resolved mid) = True"
| "is_resolved (Rejected code) = False"

text \<open>
  The token a call removes, when the call is one of the two token-removal writes
  (\<open>$pull\<close> at lines 112 and 176).
\<close>

fun pruned_token :: "call \<Rightarrow> string option" where
  "pruned_token (UpdateOne uid tk) = Some tk"
| "pruned_token (UpdateMany tk) = Some tk"
| "pruned_token c = None"

text \<open>The envelopes \<open>/send-notification\<close> builds for a user: none without a document.\<close>

definition user_messages ::
  "store \<Rightarrow> string \<Rightarrow> string \<Rightarrow> string \<Rightarrow> (string \<times> string) list option \<Rightarrow> message list" where
  "user_messages st uid t b d =
     (case findOne st uid of
        None \<Rightarrow> []
      | Some userTokens \<Rightarrow> map (envelope t b d) (fcmTokens userTokens))"

text \<open>
  The invariant of the bulk loop at index \<open>j\<close>: the results, the sends and the other
  calls are those of the first \<open>j\<close> envelopes; \<open>c0\<close> is the lookup made before the loop.
\<close>

definition bulk_inv ::
  "env \<Rightarrow> call \<Rightarrow> message list \<Rightarrow> nat \<Rightarrow> string option list \<times> call list \<Rightarrow> bool" where
  "bulk_inv e c0 ms j s \<longleftrightarrow>
     fst s = map (\<lambda>(k, m). fst (send_or_prune_everywhere e k m)) (enumerate 0 (take j ms)) \<and>
     filter is_send (snd s) = map Send (take j ms) \<and>
     filter (\<lambda>c. \<not> is_send c) (snd s) =
       c0 # concat (map (\<lambda>(k, m). snd (send_or_prune_everywhere e k m)) (enumerate 0 (take j ms)))"

text \<open>
  The (user, token) pair behind each envelope of the bulk handler, in the order of the
  envelopes: the envelope itself keeps the token only.
\<close>

definition resolved_pairs :: "store \<Rightarrow> string list \<Rightarrow> (string \<times> string) list" where
  "resolved_pairs st userIds =
     concat (map (\<lambda>user. map (\<lambda>info. (userId user, tokenInfo.token info)) (fcmTokens user))
                 (find_in st userIds))"

text \<open>The (user, token) pair of every record the store holds, in store order.\<close>

definition stored_pairs :: "store \<Rightarrow> (string \<times> string) list" where
  "stored_pairs st =
     concat (map (\<lambda>user. map (\<lambda>info. (userId user, tokenInfo.token info)) (fcmTokens user)) st)"

section \<open>Example data\<close>

text \<open>
  One user with three tokens, and a gateway that delivers the first envelope, rejects the
  second for quota and the third because its token is no longer registered.
\<close>

abbreviation example_info :: "string \<Rightarrow> tokenInfo" where
  "example_info tk \<equiv> \<lparr>tokenInfo.token = tk, device = None, lastUsed = 0\<rparr>"

abbreviation example_store :: store where
  "example_store \<equiv>
     [\<lparr>userId = ''u1'',
       fcmTokens = [example_info ''t1'', example_info ''t2'', example_info ''t3'']\<rparr>]"

abbreviation example_env :: env where
  "example_env \<equiv>
     \<lparr>gateway = (\<lambda>k m. if k = 0 then Resolved ''id0''
                       else if k = 1 then Rejected (Some ''messaging/quota-exceeded'')
                       else Rejected (Some ''messaging/registration-token-not-registered'')),
      store_error = (\<lambda>c. None)\<rparr>"

abbreviation example_message :: "string \<Rightarrow> message" where
  "example_message tk \<equiv>
     \<lparr>notification = \<lparr>title = ''T'', body = ''B''\<rparr>, data = [], token = tk\<rparr>"

text \<open>
  A store whose token-removal writes are rejected, and a gateway that reports every token
  as no longer registered.
\<close>

abbreviation failing_prune_env :: env where
  "failing_prune_env \<equiv>
     \<lparr>gateway = (\<lambda>k m. Rejected (Some ''messaging/registration-token-not-registered'')),
      store_error = (\<lambda>c. if pruned_token c = None then None else Some ''store unavailable'')\<rparr>"

section \<open>The bulk loop, event by event\<close>

text \<open>
  The call log above lists what the bulk handler issues. To say when a send or a write
  ends, the loop of lines 166-183 is modelled once more as a machine that a schedule
  drives. An envelope is named by its index in \<open>messages\<close>.

  \<^item> \<open>Begin\<close>: the loop test passes; \<open>batch.map\<close> issues the send of every envelope of
    the slice, and the handler suspends at \<open>await Promise.all(...)\<close>.
  \<^item> \<open>Settle k\<close>: the send of envelope \<open>k\<close> settles. When it was rejected with an
    invalid-token code, the \<open>catch\<close> callback calls \<open>updateMany(...).exec()\<close> and
    returns: the write is issued, and nothing waits for it.
  \<^item> \<open>Resume\<close>: every promise of the batch has settled; the handler resumes and runs
    \<open>i += batchSize\<close>. The results pushed here are those of \<open>send_batch\<close> and are
    left out of the machine's state.
  \<^item> \<open>Complete k\<close>: the store finishes the write issued for envelope \<open>k\<close>, at any
    time after its issue.
\<close>

datatype event = SendIssued nat | SendSettled nat | PruneIssued nat | PruneCompleted nat

datatype action = Begin | Settle nat | Resume | Complete nat

record loop_state =
  next_index :: nat
  suspended :: bool
  in_flight :: "nat list"
  pruning :: "nat list"
  events :: "event list"

text \<open>The state on entry to the loop: \<open>i = 0\<close>, nothing issued.\<close>

definition start :: loop_state where
  "start = \<lparr>next_index = 0, suspended = False, in_flight = [], pruning = [], events = []\<rparr>"

text \<open>The test of line 174 on the outcome of the send of envelope \<open>k\<close>.\<close>

definition permanently_invalid :: "env \<Rightarrow> message list \<Rightarrow> nat \<Rightarrow> bool" where
  "permanently_invalid e ms k =
     (case gateway e k (ms ! k) of
        Resolved mid \<Rightarrow> False
      | Rejected code \<Rightarrow> is_invalid_token code)"

text \<open>One action; \<open>None\<close> when the action cannot happen in that state.\<close>

fun step :: "nat \<Rightarrow> env \<Rightarrow> message list \<Rightarrow> loop_state \<Rightarrow> action \<Rightarrow> loop_state option" where
  "step bs e ms s Begin =
     (if \<not> suspended s \<and> next_index s < length ms
      then let batch = slice ms (next_index s) (next_index s + bs);
               ks = [next_index s ..< next_index s + length batch]
           in Some (s\<lparr>suspended := True, in_flight := ks,
                      events := events s @ map SendIssued ks\<rparr>)
      else None)"
| "step bs e ms s (Settle k) =
     (if suspended s \<and> k \<in> set (in_flight s)
      then Some (if permanently_invalid e ms k
                 then s\<lparr>in_flight := removeAll k (in_flight s),
                        pruning := pruning s @ [k],
                        events := events s @ [SendSettled k, PruneIssued k]\<rparr>
                 else s\<lparr>in_flight := removeAll k (in_flight s),
                        events := events s @ [SendSettled k]\<rparr>)
      else None)"
| "step bs e ms s Resume =
     (if suspended s \<and> in_flight s = []
      then Some (s\<lparr>suspended := False, next_index := next_index s + bs\<rparr>)
      else None)"
| "step bs e ms s (Complete k) =
     (if k \<in> set (pruning s)
      then Some (s\<lparr>pruning := removeAll k (pruning s),
                   events := events s @ [PruneCompleted k]\<rparr>)
      else None)"

text \<open>A schedule is a list of actions, run from left to right.\<close>

fun run :: "nat \<Rightarrow> env \<Rightarrow> message list \<Rightarrow> action list \<Rightarrow> loop_state \<Rightarrow> loop_state option" where
  "run bs e ms [] s = Some s"
| "run bs e ms (a # as) s =
     (case step bs e ms s a of None \<Rightarrow> None | Some s' \<Rightarrow> run bs e ms as s')"

text \<open>The number of the batch that sends envelope \<open>k\<close>, for a batch size \<open>bs\<close>.\<close>

definition batch_of :: "nat \<Rightarrow> nat \<Rightarrow> nat" where
  "batch_of bs k = k div bs"

text \<open>
  The order the event at position \<open>p\<close> of a trace must respect: a send is issued after
  every send of an earlier batch has settled and has issued its removal write, if any;
  a send settles after every send of its own batch has been issued.
\<close>

definition ordered_at :: "nat \<Rightarrow> env \<Rightarrow> message list \<Rightarrow> event list \<Rightarrow> nat \<Rightarrow> bool" where
  "ordered_at bs e ms tr p =
     (case tr ! p of
        SendIssued k' \<Rightarrow>
          (\<forall>k < length ms. batch_of bs k < batch_of bs k' \<longrightarrow>
             SendSettled k \<in> set (take p tr) \<and>
             (permanently_invalid e ms k \<longrightarrow> PruneIssued k \<in> set (take p tr)))
      | SendSettled k \<Rightarrow>
          (\<forall>k' < length ms. batch_of bs k' = batch_of bs k \<longrightarrow> SendIssued k' \<in> set (take p tr))
      | PruneIssued k \<Rightarrow> True
      | PruneCompleted k \<Rightarrow> True)"

text \<open>
  The invariant of the machine: the loop index is a multiple of the batch size, the sends
  in flight are of the current batch, whose sends are all issued, every other envelope
  before the end of the current batch has settled and issued its write, and the trace is
  ordered.
\<close>

definition loop_inv :: "nat \<Rightarrow> env \<Rightarrow> message list \<Rightarrow> loop_state \<Rightarrow> bool" where
  "loop_inv bs e ms s \<longleftrightarrow>
     bs dvd next_index s \<and>
     (\<not> suspended s \<longrightarrow> in_flight s = []) \<and>
     (\<forall>k \<in> set (in_flight s). next_index s \<le> k \<and> k < next_index s + bs \<and> k < length ms) \<and>
     (suspended s \<longrightarrow>
        (\<forall>k < length ms. next_index s \<le> k \<and> k < next_index s + bs \<longrightarrow>
           SendIssued k \<in> set (events s))) \<and>
     (\<forall>k < length ms.
        k < (if suspended s then next_index s + bs else next_index s) \<and> k \<notin> set (in_flight s) \<longrightarrow>
          SendSettled k \<in> set (events s) \<and>
          (permanently_invalid e ms k \<longrightarrow> PruneIssued k \<in> set (events s))) \<and>
     (\<forall>p < length (events s). ordered_at bs e ms (events s) p)"

text \<open>
  What the machine has issued at a state: the sends of the envelopes before the end of
  the current batch, in index order, and a removal write for exactly those of them that
  have settled as permanently invalid.
\<close>

definition issue_inv :: "nat \<Rightarrow> env \<Rightarrow> message list \<Rightarrow> loop_state \<Rightarrow> bool" where
  "issue_inv bs e ms s \<longleftrightarrow>
     [k. SendIssued k \<leftarrow> events s] =
       [0 ..< min (if suspended s then next_index s + bs else next_index s) (length ms)] \<and>
     (\<forall>k. PruneIssued k \<in> set (events s) \<longleftrightarrow>
        k < min (if suspended s then next_index s + bs else next_index s) (length ms) \<and>
        k \<notin> set (in_flight s) \<and> permanently_invalid e ms k)"

section \<open>Properties of the batching loop\<close>

text \<open>
  An invariant rule for the loop: with a positive batch size it ends, at an index past
  the end of the list, in a state that satisfies every invariant of its body.
\<close>

lemma batch_loop_inv:
  assumes bs: "0 < bs"
    and init: "P i s"
    and step: "\<And>j s. P j s \<Longrightarrow> j < length xs \<Longrightarrow> P (j + bs) (iter (slice xs j (j + bs)) j s)"
  shows "\<exists>s' j. batch_loop bs xs iter i s = Some s' \<and> length xs \<le> j \<and> P j s'"
  using init
proof (induction "length xs - i" arbitrary: i s rule: less_induct)
  case less
  show ?case
  proof (cases "i < length xs")
    case True
    have "length xs - (i + bs) < length xs - i" using True bs by arith
    from less.hyps [OF this step [OF less.prems True]]
    obtain s' j where "batch_loop bs xs iter (i + bs) (iter (slice xs i (i + bs)) i s) = Some s'"
      "length xs \<le> j" "P j s'" by blast
    then show ?thesis using True by (subst batch_loop.simps) auto
  next
    case False
    then have stop: "batch_loop bs xs iter i s = Some s"
      by (subst batch_loop.simps) simp
    from False have "length xs \<le> i" by simp
    with stop less.prems show ?thesis by blast
  qed
qed

lemma length_slice: "length (slice xs a (a + n)) = min n (length xs - a)"
  by (simp add: slice_def)

lemma take_add_slice: "take (j + n) xs = take j xs @ slice xs j (j + n)"
  by (simp add: slice_def take_add)

lemma ceil_div_unique:
  fixes n S N :: nat
  assumes "0 < S" "N \<le> n * S" "0 < n \<longrightarrow> (n - 1) * S < N"
  shows "(N + S - 1) div S = n"
proof (cases n)
  case 0
  then show ?thesis using assms by simp
next
  case (Suc m)
  have "m * S < N" using assms Suc by simp
  then have a: "S * n \<le> N + S - 1" using Suc by (simp add: algebra_simps)
  have b: "N + S - 1 < S * Suc n" using assms by (simp add: algebra_simps)
  show ?thesis using a b by (rule div_nat_eqI)
qed

text \<open>
  The loop runs its body on the slices that start at the multiples of the batch size,
  in order; \<open>batches\<close> lists exactly these slices, so the handler's loop is a fold of
  its body over them.
\<close>

lemma batch_loop_fold:
  assumes bs: "0 < bs"
  shows "batch_loop bs xs iter 0 s =
    Some (foldl (\<lambda>s k. iter (slice xs (k * bs) (k * bs + bs)) (k * bs) s) s
            [0 ..< (length xs + bs - 1) div bs])"
proof -
  let ?f = "\<lambda>s k. iter (slice xs (k * bs) (k * bs + bs)) (k * bs) s"
  define P where "P j st \<longleftrightarrow> (\<exists>m. j = m * bs \<and> st = foldl ?f s [0..<m] \<and>
      (0 < m \<longrightarrow> (m - 1) * bs < length xs))" for j st
  have init: "P 0 s" unfolding P_def by (intro exI [of _ 0]) simp
  have step: "P (j + bs) (iter (slice xs j (j + bs)) j st)" if "P j st" "j < length xs" for j st
  proof -
    from that(1) obtain m where m: "j = m * bs" "st = foldl ?f s [0..<m]"
      unfolding P_def by blast
    have "j + bs = Suc m * bs" using m(1) by simp
    moreover have "iter (slice xs j (j + bs)) j st = foldl ?f s [0..<Suc m]"
      using m by simp
    moreover have "(Suc m - 1) * bs < length xs" using that(2) m(1) by simp
    ultimately show ?thesis unfolding P_def by blast
  qed
  from batch_loop_inv [of bs P 0 s xs iter, OF bs init step]
  obtain s' j where run: "batch_loop bs xs iter 0 s = Some s'"
    and j: "length xs \<le> j" and "P j s'" by blast
  then obtain m where m: "j = m * bs" "s' = foldl ?f s [0..<m]"
    "0 < m \<longrightarrow> (m - 1) * bs < length xs"
    unfolding P_def by blast
  have "(length xs + bs - 1) div bs = m"
    using ceil_div_unique [of bs "length xs" m] bs j m(1,3) by simp
  with run m(2) show ?thesis by simp
qed

lemma batches_fold:
  assumes "0 < bs"
  shows "batches bs xs =
    Some (map (\<lambda>k. slice xs (k * bs) (k * bs + bs)) [0 ..< (length xs + bs - 1) div bs])"
proof -
  have "foldl (\<lambda>gs k. gs @ [slice xs (k * bs) (k * bs + bs)]) gs0 ks =
      gs0 @ map (\<lambda>k. slice xs (k * bs) (k * bs + bs)) ks" for gs0 ks
    by (induction ks arbitrary: gs0) simp_all
  then show ?thesis
    unfolding batches_def batch_loop_fold [OF assms] by simp
qed

lemma batch_loop_batches:
  assumes "0 < bs" "batches bs xs = Some gs"
  shows "batch_loop bs xs iter 0 s =
    Some (foldl (\<lambda>s (k, batch). iter batch (k * bs) s) s (enumerate 0 gs))"
proof -
  let ?n = "(length xs + bs - 1) div bs"
  from assms batches_fold [OF assms(1), of xs]
  have gs: "gs = map (\<lambda>k. slice xs (k * bs) (k * bs + bs)) [0 ..< ?n]" by simp
  have en: "enumerate 0 gs = map (\<lambda>k. (k, slice xs (k * bs) (k * bs + bs))) [0 ..< ?n]"
    unfolding gs by (simp add: enumerate_eq_zip zip_map2 zip_same_conv_map)
  have "foldl (\<lambda>s (k, batch). iter batch (k * bs) s) s0
          (map (\<lambda>k. (k, slice xs (k * bs) (k * bs + bs))) ks) =
        foldl (\<lambda>s k. iter (slice xs (k * bs) (k * bs + bs)) (k * bs) s) s0 ks" for s0 ks
    by (induction ks arbitrary: s0) simp_all
  then show ?thesis unfolding en batch_loop_fold [OF assms(1)] by simp
qed

text \<open>
  C5. For a list of \<open>N\<close> envelopes and a batch size \<open>S \<ge> 1\<close> the loop ends and has
  cut \<open>ceil (N / S)\<close> batches, each of at most \<open>S\<close> envelopes and all but the last of
  exactly \<open>S\<close>, whose concatenation in order is the list.
\<close>

theorem batch_loop_partition:
  assumes "1 \<le> S"
  shows "\<exists>gs. batches S xs = Some gs \<and> length gs = (length xs + S - 1) div S \<and>
           (\<forall>g \<in> set gs. length g \<le> S) \<and>
           (\<forall>k. Suc k < length gs \<longrightarrow> length (gs ! k) = S) \<and>
           concat gs = xs"
proof -
  define P where "P j gs \<longleftrightarrow> j = length gs * S \<and>
      gs = map (\<lambda>k. slice xs (k * S) (k * S + S)) [0..<length gs] \<and>
      concat gs = take j xs \<and> (0 < length gs \<longrightarrow> (length gs - 1) * S < length xs)"
    for j and gs :: "'a list list"
  have S: "0 < S" using assms by simp
  have init: "P 0 []" by (simp add: P_def)
  have step: "P (j + S) (gs @ [slice xs j (j + S)])" if "P j gs" "j < length xs" for j gs
    using that unfolding P_def by (auto simp: take_add_slice)
  from batch_loop_inv [of S P 0 "[]" xs "\<lambda>batch i gs. gs @ [batch]", OF S init step]
  obtain gs j where run: "batches S xs = Some gs" and j: "length xs \<le> j" and P: "P j gs"
    unfolding batches_def by blast
  have n: "length gs = (length xs + S - 1) div S"
    using ceil_div_unique [of S "length xs" "length gs"] S j P unfolding P_def by simp
  have last: "0 < length gs \<longrightarrow> (length gs - 1) * S < length xs"
    using P unfolding P_def by blast
  have shape: "gs = map (\<lambda>k. slice xs (k * S) (k * S + S)) [0..<length gs]"
    using P unfolding P_def by simp
  have le: "length g \<le> S" if "g \<in> set gs" for g
  proof -
    from that shape obtain k where "g = slice xs (k * S) (k * S + S)"
      by (metis (no_types, lifting) imageE list.set_map)
    then show ?thesis by (simp add: length_slice)
  qed
  have full: "length (gs ! k) = S" if "Suc k < length gs" for k
  proof -
    have "gs ! k = slice xs (k * S) (k * S + S)"
      using that by (subst shape) simp
    moreover have "Suc k * S \<le> (length gs - 1) * S"
      using that by (intro mult_le_mono1) arith
    moreover have "(length gs - 1) * S < length xs" using last that by (cases gs) auto
    ultimately show ?thesis by (simp add: length_slice)
  qed
  have "concat gs = xs" using P j unfolding P_def by simp
  with run n le full show ?thesis by blast
qed

theorem batch_loop_partition_witness:
  "(1::nat) \<le> 2 \<and> batches 2 [10, 20, 30 :: nat] = Some [[10, 20], [30]]"
proof -
  have h: "(1::nat) \<le> 2" by simp
  from batch_loop_partition [OF h, of "[10, 20, 30 :: nat]"]
  obtain gs where "batches 2 [10, 20, 30 :: nat] = Some gs" by blast
  moreover have "batches 2 [10, 20, 30 :: nat] = Some [[10, 20], [30]]"
    by (simp add: batches_def batch_loop.simps slice_def)
  ultimately show ?thesis by simp
qed

section \<open>What the handlers return and call\<close>

lemma promise_all_count:
  "promise_all (map (\<lambda>(k, m). fst (send_or_prune e uid k m)) kms) = Inr rs \<Longrightarrow>
   length rs = length kms \<and>
   length (filter (\<lambda>r. r \<noteq> None) rs) = length (filter (\<lambda>(k, m). is_resolved (gateway e k m)) kms)"
proof (induction kms arbitrary: rs)
  case Nil
  then show ?case by simp
next
  case (Cons km kms)
  obtain k m where km: "km = (k, m)" by (cases km)
  from Cons.prems km obtain v vs where
    v: "fst (send_or_prune e uid k m) = Inr v" and
    vs: "promise_all (map (\<lambda>(k, m). fst (send_or_prune e uid k m)) kms) = Inr vs" and
    rs: "rs = v # vs"
    by (cases "fst (send_or_prune e uid k m)";
        cases "promise_all (map (\<lambda>(k, m). fst (send_or_prune e uid k m)) kms)") auto
  have "v \<noteq> None \<longleftrightarrow> is_resolved (gateway e k m)"
    using v by (auto simp: send_or_prune_def split: send_outcome.splits if_splits option.splits)
  with Cons.IH [OF vs] rs km show ?case by simp
qed

lemma send_notification_calls:
  "snd (send_notification e st uid t b d) = [FindOne uid] \<or>
   snd (send_notification e st uid t b d) =
     FindOne uid # map Send (user_messages st uid t b d) @
       concat (map (\<lambda>(k, m). snd (send_or_prune e uid k m)) (enumerate 0 (user_messages st uid t b d)))"
  by (auto simp: send_notification_def user_messages_def Let_def case_prod_unfold comp_def
           split: option.splits sum.splits)

lemma send_notification_Sent:
  assumes "send_notification e st uid t b d = (Sent n f, calls)"
  shows "calls = FindOne uid # map Send (user_messages st uid t b d) @
       concat (map (\<lambda>(k, m). snd (send_or_prune e uid k m)) (enumerate 0 (user_messages st uid t b d)))
    \<and> n = length (filter (\<lambda>(k, m). is_resolved (gateway e k m)) (enumerate 0 (user_messages st uid t b d)))
    \<and> n + f = length (user_messages st uid t b d)"
proof -
  let ?ms = "user_messages st uid t b d"
  from assms obtain rs where
    rs: "promise_all (map (\<lambda>(k, m). fst (send_or_prune e uid k m)) (enumerate 0 ?ms)) = Inr rs"
    and n: "n = length (filter (\<lambda>r. r \<noteq> None) rs)" and f: "f = length ?ms - n"
    and calls: "calls = FindOne uid # map Send ?ms @
       concat (map (\<lambda>(k, m). snd (send_or_prune e uid k m)) (enumerate 0 ?ms))"
    by (auto simp: send_notification_def user_messages_def Let_def case_prod_unfold comp_def
           split: option.splits sum.splits if_splits)
  from promise_all_count [OF rs] have
    "length rs = length ?ms" and
    c: "length (filter (\<lambda>r. r \<noteq> None) rs) = length (filter (\<lambda>(k, m). is_resolved (gateway e k m)) (enumerate 0 ?ms))"
    by simp_all
  have "n \<le> length ?ms" unfolding n using \<open>length rs = length ?ms\<close>
    by (metis length_filter_le)
  with calls n f c show ?thesis by simp
qed

lemma filter_send_Send [simp]:
  "filter is_send (map Send ms) = map Send ms"
  "filter (\<lambda>c. \<not> is_send c) (map Send ms) = []"
  by (induction ms) auto

lemma filter_send_prune [simp]:
  "filter is_send (concat (map (\<lambda>(k, m). snd (send_or_prune_everywhere e k m)) kms)) = []"
  "filter (\<lambda>c. \<not> is_send c) (concat (map (\<lambda>(k, m). snd (send_or_prune_everywhere e k m)) kms)) =
     concat (map (\<lambda>(k, m). snd (send_or_prune_everywhere e k m)) kms)"
  by (induction kms) (auto simp: send_or_prune_everywhere_def split: send_outcome.splits)

lemmas filter_send_prune' [simp] = filter_send_prune [unfolded case_prod_unfold]

lemma bulk_inv_step:
  assumes "bulk_inv e c0 ms j s" "j < length ms"
  shows "bulk_inv e c0 ms (j + bs) (send_batch e (slice ms j (j + bs)) j s)"
proof -
  obtain results calls where s: "s = (results, calls)" by (cases s)
  have len: "length (take j ms) = j" using assms(2) by simp
  have en: "enumerate 0 (take (j + bs) ms) =
      enumerate 0 (take j ms) @ enumerate j (slice ms j (j + bs))"
    using assms(2) by (simp add: take_add_slice enumerate_append_eq min_def)
  show ?thesis
    using assms(1) unfolding bulk_inv_def s en
    by (simp add: take_add_slice Let_def case_prod_unfold comp_def)
qed

lemma bulk_loop_run:
  assumes "0 < bs" "\<not> is_send c0"
  shows "\<exists>results calls.
     batch_loop bs ms (send_batch e) 0 ([], [c0]) = Some (results, calls) \<and>
     results = map (\<lambda>(k, m). fst (send_or_prune_everywhere e k m)) (enumerate 0 ms) \<and>
     filter is_send calls = map Send ms \<and>
     filter (\<lambda>c. \<not> is_send c) calls =
       c0 # concat (map (\<lambda>(k, m). snd (send_or_prune_everywhere e k m)) (enumerate 0 ms))"
proof -
  have init: "bulk_inv e c0 ms 0 ([], [c0])"
    using assms(2) by (simp add: bulk_inv_def)
  from batch_loop_inv [of bs "bulk_inv e c0 ms" 0 "([], [c0])" ms "send_batch e",
      OF assms(1) init bulk_inv_step]
  obtain s' j where run: "batch_loop bs ms (send_batch e) 0 ([], [c0]) = Some s'"
    and j: "length ms \<le> j" and inv: "bulk_inv e c0 ms j s'" by blast
  from j have "take j ms = ms" by simp
  with inv run show ?thesis unfolding bulk_inv_def by (cases s') simp
qed

lemma bulk_results_count:
  "length (filter (\<lambda>r. r \<noteq> None) (map (\<lambda>(k, m). fst (send_or_prune_everywhere e k m)) kms)) =
   length (filter (\<lambda>(k, m). is_resolved (gateway e k m)) kms)"
proof (induction kms)
  case Nil
  show ?case by simp
next
  case (Cons km kms)
  obtain k m where km: "km = (k, m)" by (cases km)
  have "fst (send_or_prune_everywhere e k m) \<noteq> None \<longleftrightarrow> is_resolved (gateway e k m)"
    by (simp add: send_or_prune_everywhere_def split: send_outcome.splits)
  with Cons.IH km show ?case by simp
qed

lemma bulk_dispatch_Sent:
  assumes "0 < bs" "store_error e (Find ids) = None" "find_in st ids \<noteq> []"
  shows "\<exists>calls.
     bulk_dispatch bs e st ids t b d =
       Some (Sent (length (filter (\<lambda>(k, m). is_resolved (gateway e k m))
                      (enumerate 0 (bulk_messages t b d (find_in st ids)))))
                  (length (bulk_messages t b d (find_in st ids)) -
                   length (filter (\<lambda>(k, m). is_resolved (gateway e k m))
                      (enumerate 0 (bulk_messages t b d (find_in st ids))))), calls) \<and>
     filter is_send calls = map Send (bulk_messages t b d (find_in st ids)) \<and>
     filter (\<lambda>c. \<not> is_send c) calls =
       Find ids # concat (map (\<lambda>(k, m). snd (send_or_prune_everywhere e k m))
                            (enumerate 0 (bulk_messages t b d (find_in st ids))))"
proof -
  let ?ms = "bulk_messages t b d (find_in st ids)"
  have "\<not> is_send (Find ids)" by simp
  from bulk_loop_run [OF assms(1) this, of ?ms e]
  obtain results calls where
    run: "batch_loop bs ?ms (send_batch e) 0 ([], [Find ids]) = Some (results, calls)" and
    res: "results = map (\<lambda>(k, m). fst (send_or_prune_everywhere e k m)) (enumerate 0 ?ms)" and
    sends: "filter is_send calls = map Send ?ms" and
    others: "filter (\<lambda>c. \<not> is_send c) calls =
       Find ids # concat (map (\<lambda>(k, m). snd (send_or_prune_everywhere e k m)) (enumerate 0 ?ms))"
    by blast
  have "bulk_dispatch bs e st ids t b d =
      Some (Sent (length (filter (\<lambda>r. r \<noteq> None) results))
                 (length ?ms - length (filter (\<lambda>r. r \<noteq> None) results)), calls)"
    using assms(2,3) run by (simp add: bulk_dispatch_def Let_def)
  with sends others show ?thesis
    unfolding res bulk_results_count by blast
qed

text \<open>The handler itself is \<open>bulk_dispatch\<close> at a positive batch size.\<close>

lemma batchSize_pos: "0 < batchSize"
  by (simp add: batchSize_def)

lemma bulk_dispatch_cases:
  assumes "0 < bs" "bulk_dispatch bs e st ids t b d = Some (r, calls)"
  shows "calls = [Find ids] \<or>
     (store_error e (Find ids) = None \<and> find_in st ids \<noteq> [])"
  using assms by (auto simp: bulk_dispatch_def Let_def split: option.splits if_splits)

section \<open>A worked request\<close>

text \<open>
  One user with three tokens; the first send resolves, the second is rejected for quota,
  the third because the token is no longer registered.
\<close>

lemma example_single:
  "send_notification example_env example_store ''u1'' ''T'' ''B'' None =
     (Sent 1 2, [FindOne ''u1'', Send (example_message ''t1''), Send (example_message ''t2''),
                 Send (example_message ''t3''), UpdateOne ''u1'' ''t3''])"
  by (simp add: send_notification_def findOne_def envelope_def send_or_prune_def
        is_invalid_token_def)

lemma example_bulk:
  "bulk_dispatch 2 example_env example_store [''u1'', ''u1''] ''T'' ''B'' None =
     Some (Sent 1 2, [Find [''u1'', ''u1''], Send (example_message ''t1''),
                      Send (example_message ''t2''), Send (example_message ''t3''),
                      UpdateMany ''t3''])"
  by (simp add: bulk_dispatch_def find_in_def bulk_messages_def envelope_def
        batch_loop.simps slice_def send_or_prune_everywhere_def is_invalid_token_def)

section \<open>Pruning\<close>

lemma transient_no_call:
  assumes "gateway e k m = Rejected code" "\<not> is_invalid_token code"
  shows "snd (send_or_prune e uid k m) = []" "snd (send_or_prune_everywhere e k m) = []"
  using assms by (simp_all add: send_or_prune_def send_or_prune_everywhere_def)

lemma prune_call_single:
  assumes "c \<in> set (snd (send_or_prune e uid k m))"
  shows "c = UpdateOne uid (message.token m) \<and> (\<exists>code. gateway e k m = Rejected code \<and> is_invalid_token code)"
  using assms by (auto simp: send_or_prune_def split: send_outcome.splits if_splits option.splits)

lemma prune_call_bulk:
  assumes "c \<in> set (snd (send_or_prune_everywhere e k m))"
  shows "c = UpdateMany (message.token m) \<and> (\<exists>code. gateway e k m = Rejected code \<and> is_invalid_token code)"
  using assms by (auto simp: send_or_prune_everywhere_def split: send_outcome.splits if_splits)

lemma send_or_prune_calls_not_send:
  "filter is_send (concat (map (\<lambda>p. snd (send_or_prune e uid (fst p) (snd p))) kms)) = []"
  by (induction kms)
     (auto simp: send_or_prune_def split: send_outcome.splits option.splits)

lemma pruned_not_send: "pruned_token c = Some tk \<Longrightarrow> \<not> is_send c"
  by (cases c) simp_all

text \<open>
  C1. A send that fails with any code other than the two invalid-token codes makes its
  callback issue no store call, in either handler; and every token-removal write in the
  log of \<open>/send-notification\<close> or of \<open>/send-bulk-notification\<close> is for the token of
  an envelope whose send was rejected with one of the two codes.
\<close>

theorem no_false_pruning:
  "(gateway e k m = Rejected code \<and> \<not> is_invalid_token code \<longrightarrow>
      snd (send_or_prune e uid k m) = [] \<and> snd (send_or_prune_everywhere e k m) = []) \<and>
   (c \<in> set (snd (send_notification e st uid t b d)) \<and> pruned_token c = Some tk \<longrightarrow>
      (\<exists>k m code. (k, m) \<in> set (enumerate 0 (user_messages st uid t b d)) \<and>
         message.token m = tk \<and> gateway e k m = Rejected code \<and> is_invalid_token code)) \<and>
   (0 < bs \<and> bulk_dispatch bs e st ids t b d = Some (r, calls) \<and> c \<in> set calls \<and>
      pruned_token c = Some tk \<longrightarrow>
      (\<exists>k m code. (k, m) \<in> set (enumerate 0 (bulk_messages t b d (find_in st ids))) \<and>
         message.token m = tk \<and> gateway e k m = Rejected code \<and> is_invalid_token code))"
proof (intro conjI impI)
  assume "gateway e k m = Rejected code \<and> \<not> is_invalid_token code"
  then show "snd (send_or_prune e uid k m) = []" "snd (send_or_prune_everywhere e k m) = []"
    by (simp_all add: transient_no_call)
next
  let ?ms = "user_messages st uid t b d"
  assume a: "c \<in> set (snd (send_notification e st uid t b d)) \<and> pruned_token c = Some tk"
  then have "c \<noteq> FindOne uid" "c \<notin> set (map Send ?ms)" by auto
  with a send_notification_calls [of e st uid t b d]
  have "c \<in> set (concat (map (\<lambda>(k, m). snd (send_or_prune e uid k m)) (enumerate 0 ?ms)))"
    by auto
  then obtain k m where km: "(k, m) \<in> set (enumerate 0 ?ms)"
    and c: "c \<in> set (snd (send_or_prune e uid k m))" by auto
  from prune_call_single [OF c] a have "message.token m = tk"
    "\<exists>code. gateway e k m = Rejected code \<and> is_invalid_token code" by auto
  with km show "\<exists>k m code. (k, m) \<in> set (enumerate 0 ?ms) \<and>
         message.token m = tk \<and> gateway e k m = Rejected code \<and> is_invalid_token code"
    by blast
next
  let ?ms = "bulk_messages t b d (find_in st ids)"
  assume a: "0 < bs \<and> bulk_dispatch bs e st ids t b d = Some (r, calls) \<and> c \<in> set calls \<and>
      pruned_token c = Some tk"
  then have nf: "c \<noteq> Find ids" and ns: "\<not> is_send c"
    by (auto dest: pruned_not_send)
  from a bulk_dispatch_cases [of bs e st ids t b d r calls] nf
  have ok: "store_error e (Find ids) = None" "find_in st ids \<noteq> []" by auto
  from bulk_dispatch_Sent [of bs e ids st t b d] a ok
  have "filter (\<lambda>c. \<not> is_send c) calls =
       Find ids # concat (map (\<lambda>(k, m). snd (send_or_prune_everywhere e k m)) (enumerate 0 ?ms))"
    by auto
  moreover have "c \<in> set (filter (\<lambda>c. \<not> is_send c) calls)" using a ns by simp
  ultimately have
    "c \<in> set (concat (map (\<lambda>(k, m). snd (send_or_prune_everywhere e k m)) (enumerate 0 ?ms)))"
    using nf by auto
  then obtain k m where km: "(k, m) \<in> set (enumerate 0 ?ms)"
    and c: "c \<in> set (snd (send_or_prune_everywhere e k m))" by auto
  from prune_call_bulk [OF c] a have "message.token m = tk"
    "\<exists>code. gateway e k m = Rejected code \<and> is_invalid_token code" by auto
  with km show "\<exists>k m code. (k, m) \<in> set (enumerate 0 ?ms) \<and>
         message.token m = tk \<and> gateway e k m = Rejected code \<and> is_invalid_token code"
    by blast
qed

theorem no_false_pruning_witness:
  "gateway example_env 1 (example_message ''t2'') = Rejected (Some ''messaging/quota-exceeded'') \<and>
   \<not> is_invalid_token (Some ''messaging/quota-exceeded'') \<and>
   snd (send_or_prune example_env ''u1'' 1 (example_message ''t2'')) = [] \<and>
   snd (send_or_prune_everywhere example_env 1 (example_message ''t2'')) = [] \<and>
   UpdateOne ''u1'' ''t3'' \<in> set (snd (send_notification example_env example_store ''u1'' ''T'' ''B'' None)) \<and>
   (\<exists>k m code. (k, m) \<in> set (enumerate 0 (user_messages example_store ''u1'' ''T'' ''B'' None)) \<and>
      message.token m = ''t3'' \<and> gateway example_env k m = Rejected code \<and> is_invalid_token code) \<and>
   UpdateMany ''t3'' \<in> set (snd (the (bulk_dispatch 2 example_env example_store [''u1'', ''u1''] ''T'' ''B'' None))) \<and>
   (\<exists>k m code. (k, m) \<in> set (enumerate 0 (bulk_messages ''T'' ''B'' None (find_in example_store [''u1'', ''u1'']))) \<and>
      message.token m = ''t3'' \<and> gateway example_env k m = Rejected code \<and> is_invalid_token code)"
proof -
  have h1: "gateway example_env 1 (example_message ''t2'') = Rejected (Some ''messaging/quota-exceeded'')"
    by simp
  have h2: "\<not> is_invalid_token (Some ''messaging/quota-exceeded'')"
    by (simp add: is_invalid_token_def)
  have h3: "UpdateOne ''u1'' ''t3'' \<in> set (snd (send_notification example_env example_store ''u1'' ''T'' ''B'' None))"
    by (simp add: example_single)
  have h4: "UpdateMany ''t3'' \<in> set (snd (the (bulk_dispatch 2 example_env example_store [''u1'', ''u1''] ''T'' ''B'' None)))"
    by (simp add: example_bulk)
  from no_false_pruning [where e = example_env and k = 1 and m = "example_message ''t2''"
      and code = "Some ''messaging/quota-exceeded''" and uid = "''u1''"
      and c = "UpdateOne ''u1'' ''t3''" and st = example_store and t = "''T''" and b = "''B''"
      and d = None and tk = "''t3''"] h1 h2 h3
  have c1: "snd (send_or_prune example_env ''u1'' 1 (example_message ''t2'')) = []"
    "snd (send_or_prune_everywhere example_env 1 (example_message ''t2'')) = []"
    "\<exists>k m code. (k, m) \<in> set (enumerate 0 (user_messages example_store ''u1'' ''T'' ''B'' None)) \<and>
      message.token m = ''t3'' \<and> gateway example_env k m = Rejected code \<and> is_invalid_token code"
    by simp_all
  from no_false_pruning [where e = example_env and c = "UpdateMany ''t3''" and st = example_store
      and t = "''T''" and b = "''B''" and d = None and tk = "''t3''" and bs = 2
      and ids = "[''u1'', ''u1'']" and r = "Sent 1 2"
      and calls = "snd (the (bulk_dispatch 2 example_env example_store [''u1'', ''u1''] ''T'' ''B'' None))"]
    h4
  have c2: "\<exists>k m code. (k, m) \<in> set (enumerate 0 (bulk_messages ''T'' ''B'' None (find_in example_store [''u1'', ''u1'']))) \<and>
      message.token m = ''t3'' \<and> gateway example_env k m = Rejected code \<and> is_invalid_token code"
    by (simp add: example_bulk)
  from h1 h2 h3 h4 c1 c2 show ?thesis by blast
qed

section \<open>Counts\<close>

text \<open>
  C4. Whenever a handler reports counts, the count of successful sends is the number of
  sends that resolved, \<open>failed\<close> is the number that were rejected, and their sum is the
  number of \<open>send\<close> calls issued. The bulk handler answers for every positive batch
  size, and the counts do not depend on where the batches are cut.
\<close>

theorem exact_aggregation:
  "(send_notification e st uid t b d = (Sent n f, calls) \<longrightarrow>
      n + f = length (filter is_send calls) \<and>
      n = length (filter (\<lambda>(k, m). is_resolved (gateway e k m))
                    (enumerate 0 (user_messages st uid t b d))) \<and>
      f = length (filter (\<lambda>(k, m). \<not> is_resolved (gateway e k m))
                    (enumerate 0 (user_messages st uid t b d)))) \<and>
   (0 < bs \<longrightarrow> bulk_dispatch bs e st ids t b d \<noteq> None) \<and>
   (0 < bs \<and> bulk_dispatch bs e st ids t b d = Some (Sent n f, calls) \<longrightarrow>
      n + f = length (filter is_send calls) \<and>
      n = length (filter (\<lambda>(k, m). is_resolved (gateway e k m))
                    (enumerate 0 (bulk_messages t b d (find_in st ids)))) \<and>
      f = length (filter (\<lambda>(k, m). \<not> is_resolved (gateway e k m))
                    (enumerate 0 (bulk_messages t b d (find_in st ids)))))"
proof (intro conjI impI)
  let ?ms = "user_messages st uid t b d"
  let ?ok = "\<lambda>(k, m). is_resolved (gateway e k m)"
  assume a: "send_notification e st uid t b d = (Sent n f, calls)"
  from send_notification_Sent [OF a] have
    calls: "filter is_send calls = map Send ?ms" and
    n: "n = length (filter ?ok (enumerate 0 ?ms))" and nf: "n + f = length ?ms"
    by (simp_all add: case_prod_unfold send_or_prune_calls_not_send)
  show "n + f = length (filter is_send calls)" using calls nf by simp
  show "n = length (filter ?ok (enumerate 0 ?ms))" by (rule n)
  have "length (filter ?ok (enumerate 0 ?ms)) +
        length (filter (\<lambda>km. \<not> ?ok km) (enumerate 0 ?ms)) = length (enumerate 0 ?ms)"
    by (rule sum_length_filter_compl)
  with n nf show "f = length (filter (\<lambda>(k, m). \<not> is_resolved (gateway e k m)) (enumerate 0 ?ms))"
    by (simp add: case_prod_unfold)
next
  assume "0 < bs"
  then show "bulk_dispatch bs e st ids t b d \<noteq> None"
    using bulk_dispatch_Sent [of bs e ids st t b d]
    by (cases "store_error e (Find ids)"; cases "find_in st ids = []")
       (auto simp: bulk_dispatch_def Let_def)
next
  let ?ms = "bulk_messages t b d (find_in st ids)"
  let ?ok = "\<lambda>(k, m). is_resolved (gateway e k m)"
  assume a: "0 < bs \<and> bulk_dispatch bs e st ids t b d = Some (Sent n f, calls)"
  with bulk_dispatch_cases [of bs e st ids t b d "Sent n f" calls]
  have ok: "store_error e (Find ids) = None" "find_in st ids \<noteq> []"
    by (auto simp: bulk_dispatch_def Let_def split: option.splits if_splits)
  from bulk_dispatch_Sent [of bs e ids st t b d] a ok have
    n: "n = length (filter ?ok (enumerate 0 ?ms))" and f: "f = length ?ms - n" and
    calls: "filter is_send calls = map Send ?ms"
    by auto
  have le: "n \<le> length ?ms" unfolding n
    by (metis length_enumerate length_filter_le)
  show "n + f = length (filter is_send calls)" using calls f le by simp
  show "n = length (filter ?ok (enumerate 0 ?ms))" by (rule n)
  have "length (filter ?ok (enumerate 0 ?ms)) +
        length (filter (\<lambda>km. \<not> ?ok km) (enumerate 0 ?ms)) = length (enumerate 0 ?ms)"
    by (rule sum_length_filter_compl)
  with n f show "f = length (filter (\<lambda>(k, m). \<not> is_resolved (gateway e k m)) (enumerate 0 ?ms))"
    by (simp add: case_prod_unfold)
qed

theorem exact_aggregation_witness:
  "send_notification example_env example_store ''u1'' ''T'' ''B'' None =
     (Sent 1 2, [FindOne ''u1'', Send (example_message ''t1''), Send (example_message ''t2''),
                 Send (example_message ''t3''), UpdateOne ''u1'' ''t3'']) \<and>
   (1::nat) + 2 = length (filter is_send
        [FindOne ''u1'', Send (example_message ''t1''), Send (example_message ''t2''),
         Send (example_message ''t3''), UpdateOne ''u1'' ''t3'']) \<and>
   (0::nat) < 2 \<and>
   bulk_dispatch 2 example_env example_store [''u1'', ''u1''] ''T'' ''B'' None =
     Some (Sent 1 2, [Find [''u1'', ''u1''], Send (example_message ''t1''),
                      Send (example_message ''t2''), Send (example_message ''t3''),
                      UpdateMany ''t3'']) \<and>
   (1::nat) + 2 = length (filter is_send
        [Find [''u1'', ''u1''], Send (example_message ''t1''),
         Send (example_message ''t2''), Send (example_message ''t3''), UpdateMany ''t3''])"
proof -
  note single = example_single
  note bulk = example_bulk
  have pos: "(0::nat) < 2" by simp
  from exact_aggregation [where e = example_env and st = example_store and uid = "''u1''"
      and t = "''T''" and b = "''B''" and d = None and n = 1 and f = 2 and bs = 2
      and ids = "[''u1'', ''u1'']"
      and calls = "[FindOne ''u1'', Send (example_message ''t1''), Send (example_message ''t2''),
                 Send (example_message ''t3''), UpdateOne ''u1'' ''t3'']"] single
  have c1: "(1::nat) + 2 = length (filter is_send
        [FindOne ''u1'', Send (example_message ''t1''), Send (example_message ''t2''),
         Send (example_message ''t3''), UpdateOne ''u1'' ''t3''])"
    by blast
  from exact_aggregation [where e = example_env and st = example_store
      and t = "''T''" and b = "''B''" and d = None and n = 1 and f = 2 and bs = 2
      and ids = "[''u1'', ''u1'']"
      and calls = "[Find [''u1'', ''u1''], Send (example_message ''t1''),
                      Send (example_message ''t2''), Send (example_message ''t3''),
                      UpdateMany ''t3'']"] bulk pos
  have c2: "(1::nat) + 2 = length (filter is_send
        [Find [''u1'', ''u1''], Send (example_message ''t1''),
         Send (example_message ''t2''), Send (example_message ''t3''), UpdateMany ''t3''])"
    by blast
  from single bulk pos c1 c2 show ?thesis by blast
qed

section \<open>No recipient\<close>

text \<open>
  C7. When the lookup succeeds and the user has no document, or a document with no
  token, \<open>/send-notification\<close> answers 404 \<open>No tokens found for this user\<close> and its
  only call is the lookup: no \<open>send\<close> is issued.
\<close>

theorem no_tokens_single:
  assumes "store_error e (FindOne uid) = None"
    and "findOne st uid = None \<or> (\<exists>u. findOne st uid = Some u \<and> fcmTokens u = [])"
  shows "send_notification e st uid t b d =
           (NotFound ''No tokens found for this user'', [FindOne uid]) \<and>
         filter is_send (snd (send_notification e st uid t b d)) = []"
  using assms by (auto simp: send_notification_def)

theorem no_tokens_single_witness:
  "store_error example_env (FindOne ''u2'') = None \<and>
   findOne example_store ''u2'' = None \<and>
   send_notification example_env example_store ''u2'' ''T'' ''B'' None =
     (NotFound ''No tokens found for this user'', [FindOne ''u2'']) \<and>
   findOne [\<lparr>userId = ''u2'', fcmTokens = []\<rparr>] ''u2'' = Some \<lparr>userId = ''u2'', fcmTokens = []\<rparr> \<and>
   send_notification example_env [\<lparr>userId = ''u2'', fcmTokens = []\<rparr>] ''u2'' ''T'' ''B'' None =
     (NotFound ''No tokens found for this user'', [FindOne ''u2''])"
proof -
  have h1: "store_error example_env (FindOne ''u2'') = None" by simp
  have h2: "findOne example_store ''u2'' = None" by (simp add: findOne_def)
  have h3: "findOne [\<lparr>userId = ''u2'', fcmTokens = []\<rparr>] ''u2'' = Some \<lparr>userId = ''u2'', fcmTokens = []\<rparr>"
    by (simp add: findOne_def)
  from no_tokens_single [where e = example_env and uid = "''u2''" and st = example_store, OF h1] h2
  have c1: "send_notification example_env example_store ''u2'' ''T'' ''B'' None =
     (NotFound ''No tokens found for this user'', [FindOne ''u2''])" by blast
  from no_tokens_single [where e = example_env and uid = "''u2''"
      and st = "[\<lparr>userId = ''u2'', fcmTokens = []\<rparr>]", OF h1] h3
  have c2: "send_notification example_env [\<lparr>userId = ''u2'', fcmTokens = []\<rparr>] ''u2'' ''T'' ''B'' None =
     (NotFound ''No tokens found for this user'', [FindOne ''u2''])" by simp
  from h1 h2 h3 c1 c2 show ?thesis by blast
qed

lemma bulk_messages_empty:
  "\<forall>u \<in> set us. fcmTokens u = [] \<Longrightarrow> bulk_messages t b d us = []"
  by (induction us) (simp_all add: bulk_messages_def)

text \<open>
  C10. When the bulk lookup succeeds and finds at least one document, and every document
  found has an empty \<open>fcmTokens\<close>, the bulk handler does not answer 404: it answers 200
  with zero sent and zero failed, and its only call is the lookup.
\<close>

theorem bulk_empty_token_sets:
  assumes "store_error e (Find ids) = None"
    and "find_in st ids \<noteq> []"
    and "\<forall>u \<in> set (find_in st ids). fcmTokens u = []"
  shows "bulk_dispatch bs e st ids t b d = Some (Sent 0 0, [Find ids])"
proof -
  have ms: "bulk_messages t b d (find_in st ids) = []"
    using assms(3) by (rule bulk_messages_empty)
  have "batch_loop bs ([] :: message list) (send_batch e) 0 ([], [Find ids]) = Some ([], [Find ids])"
    by (subst batch_loop.simps) simp
  with assms(1,2) ms show ?thesis by (simp add: bulk_dispatch_def)
qed

theorem bulk_empty_token_sets_witness:
  "store_error example_env (Find [''u1'', ''u2'']) = None \<and>
   find_in [\<lparr>userId = ''u2'', fcmTokens = []\<rparr>] [''u1'', ''u2''] = [\<lparr>userId = ''u2'', fcmTokens = []\<rparr>] \<and>
   send_bulk_notification example_env [\<lparr>userId = ''u2'', fcmTokens = []\<rparr>] [''u1'', ''u2''] ''T'' ''B'' None =
     Some (Sent 0 0, [Find [''u1'', ''u2'']])"
proof -
  have h1: "store_error example_env (Find [''u1'', ''u2'']) = None" by simp
  have h2: "find_in [\<lparr>userId = ''u2'', fcmTokens = []\<rparr>] [''u1'', ''u2''] = [\<lparr>userId = ''u2'', fcmTokens = []\<rparr>]"
    by (simp add: find_in_def)
  have h3: "find_in [\<lparr>userId = ''u2'', fcmTokens = []\<rparr>] [''u1'', ''u2''] \<noteq> []"
    by (simp add: h2)
  have h4: "\<forall>u \<in> set (find_in [\<lparr>userId = ''u2'', fcmTokens = []\<rparr>] [''u1'', ''u2'']). fcmTokens u = []"
    by (simp add: h2)
  from bulk_empty_token_sets [OF h1 h3 h4, of batchSize "''T''" "''B''" None]
  have "send_bulk_notification example_env [\<lparr>userId = ''u2'', fcmTokens = []\<rparr>] [''u1'', ''u2''] ''T'' ''B'' None =
     Some (Sent 0 0, [Find [''u1'', ''u2'']])"
    by (simp add: send_bulk_notification_def)
  with h1 h2 show ?thesis by blast
qed

section \<open>Registration\<close>

text \<open>
  C2. The claim asks for one record per token after a second registration. The handler
  adds the whole sub-document with \<open>$addToSet\<close>, and the sub-document carries
  \<open>lastUsed: new Date()\<close> and the device: registering user \<open>u1\<close>, token \<open>t1\<close> from
  \<open>phone\<close> at time 1000 and again from \<open>tablet\<close> at time 2000 leaves two records for
  \<open>t1\<close>, the first with its old device and date.
\<close>

theorem register_token_twice:
  "register_token example_env 1000 [] ''u1'' ''t1'' (Some ''phone'') =
     (Registered,
      [\<lparr>userId = ''u1'', fcmTokens =
          [\<lparr>tokenInfo.token = ''t1'', device = Some ''phone'', lastUsed = 1000\<rparr>]\<rparr>]) \<and>
   register_token example_env 2000
      [\<lparr>userId = ''u1'', fcmTokens =
          [\<lparr>tokenInfo.token = ''t1'', device = Some ''phone'', lastUsed = 1000\<rparr>]\<rparr>]
      ''u1'' ''t1'' (Some ''tablet'') =
     (Registered,
      [\<lparr>userId = ''u1'', fcmTokens =
          [\<lparr>tokenInfo.token = ''t1'', device = Some ''phone'', lastUsed = 1000\<rparr>,
           \<lparr>tokenInfo.token = ''t1'', device = Some ''tablet'', lastUsed = 2000\<rparr>]\<rparr>])"
  by (simp add: register_token_def addToSet_def)

section \<open>A failing prune\<close>

text \<open>
  C3. The claim asks that a rejected token-removal write never changes the answer. With
  one token that the gateway reports as unregistered and a store that rejects the removal,
  \<open>/send-notification\<close> answers 500 with the store's message, where
  \<open>/send-bulk-notification\<close> on the same data answers 200 with 0 sent and 1 failed.
\<close>

theorem prune_failure_escalates:
  "send_notification failing_prune_env
     [\<lparr>userId = ''u1'', fcmTokens = [example_info ''t1'']\<rparr>] ''u1'' ''T'' ''B'' None =
     (ServerError ''store unavailable'',
      [FindOne ''u1'', Send (example_message ''t1''), UpdateOne ''u1'' ''t1'']) \<and>
   send_bulk_notification failing_prune_env
     [\<lparr>userId = ''u1'', fcmTokens = [example_info ''t1'']\<rparr>] [''u1''] ''T'' ''B'' None =
     Some (Sent 0 1, [Find [''u1''], Send (example_message ''t1''), UpdateMany ''t1''])"
  by (simp add: send_notification_def findOne_def envelope_def send_or_prune_def
        is_invalid_token_def send_bulk_notification_def bulk_dispatch_def find_in_def
        bulk_messages_def batch_loop.simps slice_def send_or_prune_everywhere_def batchSize_def)

section \<open>Bulk resolution\<close>

text \<open>
  C6, as stated: with an empty \<open>userIds\<close> the handler would answer without a lookup.
  It answers 404, and its call log holds the lookup \<open>Find []\<close>.
\<close>

theorem bulk_empty_userIds_lookup:
  "send_bulk_notification example_env example_store [] ''T'' ''B'' None =
     Some (NotFound ''No tokens found for any users'', [Find []])"
  by (simp add: send_bulk_notification_def bulk_dispatch_def find_in_def)

text \<open>
  C6, amended. With an empty \<open>userIds\<close> and a store that answers, the bulk handler makes
  exactly one call, the many-user lookup with the empty list, and answers 404
  \<open>No tokens found for any users\<close>.
\<close>

theorem bulk_empty_userIds:
  assumes "store_error e (Find []) = None"
  shows "send_bulk_notification e st [] t b d =
           Some (NotFound ''No tokens found for any users'', [Find []])"
  using assms by (simp add: send_bulk_notification_def bulk_dispatch_def find_in_def)

theorem bulk_empty_userIds_witness:
  "store_error failing_prune_env (Find []) = None \<and>
   send_bulk_notification failing_prune_env [\<lparr>userId = ''u2'', fcmTokens = []\<rparr>] [] ''T'' ''B'' None =
     Some (NotFound ''No tokens found for any users'', [Find []])"
proof -
  have h: "store_error failing_prune_env (Find []) = None" by simp
  from bulk_empty_userIds [OF h] h show ?thesis by blast
qed



lemma resolved_pairs_stored: "resolved_pairs st ids = stored_pairs (find_in st ids)"
  by (simp add: resolved_pairs_def stored_pairs_def)






section \<open>Batches are sequential\<close>

lemma same_batch:
  assumes "0 < bs" "bs dvd i"
  shows "batch_of bs k = batch_of bs i \<longleftrightarrow> i \<le> k \<and> k < i + bs"
proof -
  from assms(2) obtain q where i: "i = bs * q" by (auto simp: dvd_def)
  have "k div bs = q \<longleftrightarrow> bs * q \<le> k \<and> k < bs * q + bs"
  proof
    assume "k div bs = q"
    then show "bs * q \<le> k \<and> k < bs * q + bs"
      using assms(1) by (metis add.commute dividend_less_times_div mult.commute times_div_less_eq_dividend)
  next
    assume "bs * q \<le> k \<and> k < bs * q + bs"
    then show "k div bs = q" by (intro div_nat_eqI) simp_all
  qed
  then show ?thesis using assms(1) by (simp add: batch_of_def i)
qed

lemma earlier_batch:
  assumes "0 < bs" "bs dvd i"
  shows "batch_of bs k < batch_of bs i \<longleftrightarrow> k < i"
proof -
  from assms(2) obtain q where i: "i = q * bs" by (auto simp: dvd_def mult.commute)
  show ?thesis using assms(1) by (simp add: batch_of_def i div_less_iff_less_mult)
qed

lemma ordered_append:
  assumes "\<forall>p < length tr. ordered_at bs e ms tr p"
    and "\<forall>q < length new. ordered_at bs e ms (tr @ new) (length tr + q)"
  shows "\<forall>p < length (tr @ new). ordered_at bs e ms (tr @ new) p"
proof (intro allI impI)
  fix p assume p: "p < length (tr @ new)"
  show "ordered_at bs e ms (tr @ new) p"
  proof (cases "p < length tr")
    case True
    then have "ordered_at bs e ms (tr @ new) p = ordered_at bs e ms tr p"
      by (simp add: ordered_at_def nth_append cong: event.case_cong)
    with assms(1) True show ?thesis by simp
  next
    case False
    then obtain q where "p = length tr + q" "q < length new"
      using p by (metis add_diff_inverse_nat length_append nat_add_left_cancel_less)
    with assms(2) show ?thesis by simp
  qed
qed


lemma loop_inv_start: "loop_inv bs e ms start"
  by (simp add: loop_inv_def start_def)

lemma loop_inv_Begin:
  assumes bs: "0 < bs" and inv: "loop_inv bs e ms s" and st: "step bs e ms s Begin = Some s'"
  shows "loop_inv bs e ms s'"
proof -
  let ?i = "next_index s"
  let ?ks = "[?i ..< ?i + length (slice ms ?i (?i + bs))]"
  from st have ns: "\<not> suspended s" and lt: "?i < length ms"
    and s': "s' = s\<lparr>suspended := True, in_flight := ?ks, events := events s @ map SendIssued ?ks\<rparr>"
    by (auto simp: Let_def split: if_splits)
  have len: "?i + length (slice ms ?i (?i + bs)) = min (?i + bs) (length ms)"
    using lt by (auto simp: length_slice min_def)
  from inv have dvd: "bs dvd ?i"
    and fin: "\<forall>k < length ms. k < ?i \<longrightarrow> SendSettled k \<in> set (events s) \<and>
          (permanently_invalid e ms k \<longrightarrow> PruneIssued k \<in> set (events s))"
    and ord: "\<forall>p < length (events s). ordered_at bs e ms (events s) p"
    using ns unfolding loop_inv_def by auto
  have new: "\<forall>q < length (map SendIssued ?ks).
      ordered_at bs e ms (events s @ map SendIssued ?ks) (length (events s) + q)"
  proof (intro allI impI)
    fix q assume q: "q < length (map SendIssued ?ks)"
    then have q': "?i + q < ?i + bs" using len by simp
    have same: "batch_of bs (?i + q) = batch_of bs ?i"
      using same_batch [OF bs dvd, of "?i + q"] q' by simp
    have "(events s @ map SendIssued ?ks) ! (length (events s) + q) = SendIssued (?i + q)"
      using q by (simp add: nth_append)
    moreover have "set (events s) \<subseteq> set (take (length (events s) + q) (events s @ map SendIssued ?ks))"
      by simp
    ultimately show "ordered_at bs e ms (events s @ map SendIssued ?ks) (length (events s) + q)"
      using fin earlier_batch [OF bs dvd] unfolding ordered_at_def
      by (auto simp: same simp del: take_append)
  qed
  have ord': "\<forall>p < length (events s'). ordered_at bs e ms (events s') p"
    using ordered_append [OF ord new] by (simp add: s')
  have issued: "\<forall>k < length ms. ?i \<le> k \<and> k < ?i + bs \<longrightarrow> SendIssued k \<in> set (events s')"
    using len by (auto simp: s')
  have settled: "\<forall>k < length ms. k < ?i + bs \<and> k \<notin> set ?ks \<longrightarrow>
          SendSettled k \<in> set (events s') \<and>
          (permanently_invalid e ms k \<longrightarrow> PruneIssued k \<in> set (events s'))"
  proof (intro allI impI)
    fix k assume k: "k < length ms" and "k < ?i + bs \<and> k \<notin> set ?ks"
    then have "k < ?i" using len by auto
    with fin k show "SendSettled k \<in> set (events s') \<and>
          (permanently_invalid e ms k \<longrightarrow> PruneIssued k \<in> set (events s'))"
      by (simp add: s')
  qed
  have range: "\<forall>k \<in> set ?ks. ?i \<le> k \<and> k < ?i + bs \<and> k < length ms"
    using len by auto
  show ?thesis
    unfolding loop_inv_def using dvd ord' issued settled range by (simp add: s')
qed

lemma loop_inv_Settle:
  assumes bs: "0 < bs" and inv: "loop_inv bs e ms s" and st: "step bs e ms s (Settle k) = Some s'"
  shows "loop_inv bs e ms s'"
proof -
  let ?i = "next_index s"
  let ?new = "if permanently_invalid e ms k then [SendSettled k, PruneIssued k] else [SendSettled k]"
  from st have su: "suspended s" and k: "k \<in> set (in_flight s)"
    and ev: "events s' = events s @ ?new"
    and fl: "in_flight s' = removeAll k (in_flight s)"
    and same: "next_index s' = ?i" "suspended s' = suspended s"
    by (auto split: if_splits)
  from inv have dvd: "bs dvd ?i"
    and range: "\<forall>k \<in> set (in_flight s). ?i \<le> k \<and> k < ?i + bs \<and> k < length ms"
    and issued: "\<forall>k < length ms. ?i \<le> k \<and> k < ?i + bs \<longrightarrow> SendIssued k \<in> set (events s)"
    and fin: "\<forall>k < length ms. k < ?i + bs \<and> k \<notin> set (in_flight s) \<longrightarrow>
          SendSettled k \<in> set (events s) \<and>
          (permanently_invalid e ms k \<longrightarrow> PruneIssued k \<in> set (events s))"
    and ord: "\<forall>p < length (events s). ordered_at bs e ms (events s) p"
    using su unfolding loop_inv_def by auto
  from range k have kr: "?i \<le> k" "k < ?i + bs" by auto
  have kb: "batch_of bs k = batch_of bs ?i"
    using same_batch [OF bs dvd, of k] kr by simp
  have new: "\<forall>q < length ?new. ordered_at bs e ms (events s @ ?new) (length (events s) + q)"
  proof (intro allI impI)
    fix q assume q: "q < length ?new"
    show "ordered_at bs e ms (events s @ ?new) (length (events s) + q)"
    proof (cases q)
      case 0
      then show ?thesis
        using issued same_batch [OF bs dvd] unfolding ordered_at_def
        by (auto simp: nth_append kb)
    next
      case (Suc r)
      with q have "permanently_invalid e ms k" "q = 1" by (auto split: if_splits)
      then show ?thesis by (simp add: ordered_at_def nth_append)
    qed
  qed
  have ord': "\<forall>p < length (events s'). ordered_at bs e ms (events s') p"
    using ordered_append [OF ord new] by (simp add: ev)
  have settled: "\<forall>j < length ms. j < ?i + bs \<and> j \<notin> set (in_flight s') \<longrightarrow>
          SendSettled j \<in> set (events s') \<and>
          (permanently_invalid e ms j \<longrightarrow> PruneIssued j \<in> set (events s'))"
    using fin by (auto simp: ev fl)
  show ?thesis
    unfolding loop_inv_def using dvd ord' issued settled range su by (auto simp: ev fl same)
qed

lemma loop_inv_Resume:
  assumes inv: "loop_inv bs e ms s" and st: "step bs e ms s Resume = Some s'"
  shows "loop_inv bs e ms s'"
proof -
  from st have su: "suspended s" and fl: "in_flight s = []"
    and s': "s' = s\<lparr>suspended := False, next_index := next_index s + bs\<rparr>"
    by (auto split: if_splits)
  show ?thesis using inv su fl unfolding loop_inv_def s' by simp
qed

lemma loop_inv_Complete:
  assumes inv: "loop_inv bs e ms s" and st: "step bs e ms s (Complete k) = Some s'"
  shows "loop_inv bs e ms s'"
proof -
  from st have s': "s' = s\<lparr>pruning := removeAll k (pruning s),
                   events := events s @ [PruneCompleted k]\<rparr>"
    by (auto split: if_splits)
  from inv have ord: "\<forall>p < length (events s). ordered_at bs e ms (events s) p"
    unfolding loop_inv_def by blast
  have new: "\<forall>q < length [PruneCompleted k].
      ordered_at bs e ms (events s @ [PruneCompleted k]) (length (events s) + q)"
    by (simp add: ordered_at_def)
  have ord': "\<forall>p < length (events s'). ordered_at bs e ms (events s') p"
    using ordered_append [OF ord new] by (simp add: s')
  show ?thesis using inv ord' unfolding loop_inv_def by (simp add: s')
qed

lemma loop_inv_step:
  assumes "0 < bs" "loop_inv bs e ms s" "step bs e ms s a = Some s'"
  shows "loop_inv bs e ms s'"
  using assms
  by (cases a) (blast intro: loop_inv_Begin loop_inv_Settle loop_inv_Resume loop_inv_Complete)+

lemma loop_inv_run:
  assumes "0 < bs" "loop_inv bs e ms s" "run bs e ms sched s = Some s'"
  shows "loop_inv bs e ms s'"
  using assms(2,3)
proof (induction sched arbitrary: s)
  case Nil
  then show ?case by simp
next
  case (Cons a sched)
  then show ?case
    by (auto split: option.splits intro: loop_inv_step [OF assms(1)])
qed

text \<open>
  C9, as stated: the removal writes triggered in a batch would be complete before the next
  batch begins. With a batch size of 1 and two envelopes whose tokens the gateway reports
  as unregistered, the schedule below issues the send of the second batch while the write
  for the first envelope is still pending.
\<close>

theorem prune_outlives_batch:
  "run 1 failing_prune_env [example_message ''t1'', example_message ''t2'']
     [Begin, Settle 0, Resume, Begin] start =
   Some \<lparr>next_index = 1, suspended = True, in_flight = [1], pruning = [0],
          events = [SendIssued 0, SendSettled 0, PruneIssued 0, SendIssued 1]\<rparr>"
  by (simp add: start_def slice_def permanently_invalid_def is_invalid_token_def)

text \<open>
  C9, amended. In every run of the bulk loop with a positive batch size, when a send of
  a batch is issued every send of every earlier batch has settled and has issued its
  token-removal write, if it triggers one; the completion of that write is not awaited.
  Within a batch every send is issued before any of them settles.
\<close>

theorem batches_sequential:
  assumes "0 < bs" and "run bs e ms sched start = Some s"
  shows "(events s = pre @ SendIssued j' # post \<and> j < length ms \<and> batch_of bs j < batch_of bs j' \<longrightarrow>
            SendSettled j \<in> set pre \<and> (permanently_invalid e ms j \<longrightarrow> PruneIssued j \<in> set pre)) \<and>
         (events s = pre @ SendSettled k # post \<and> k' < length ms \<and> batch_of bs k' = batch_of bs k \<longrightarrow>
            SendIssued k' \<in> set pre)"
proof -
  from loop_inv_run [OF assms(1) loop_inv_start assms(2)]
  have ord: "\<forall>p < length (events s). ordered_at bs e ms (events s) p"
    unfolding loop_inv_def by blast
  show ?thesis
  proof (intro conjI impI)
    assume a: "events s = pre @ SendIssued j' # post \<and> j < length ms \<and> batch_of bs j < batch_of bs j'"
    then have "ordered_at bs e ms (pre @ SendIssued j' # post) (length pre)"
      using ord by simp
    with a show "SendSettled j \<in> set pre" "permanently_invalid e ms j \<Longrightarrow> PruneIssued j \<in> set pre"
      by (simp_all add: ordered_at_def)
  next
    assume a: "events s = pre @ SendSettled k # post \<and> k' < length ms \<and> batch_of bs k' = batch_of bs k"
    then have "ordered_at bs e ms (pre @ SendSettled k # post) (length pre)"
      using ord by simp
    with a show "SendIssued k' \<in> set pre"
      by (simp add: ordered_at_def)
  qed
qed

theorem batches_sequential_witness:
  "run 2 failing_prune_env [example_message ''t1'', example_message ''t2'', example_message ''t3'']
     [Begin, Settle 1, Settle 0, Resume, Begin, Settle 2, Resume] start =
   Some \<lparr>next_index = 4, suspended = False, in_flight = [], pruning = [1, 0, 2],
          events = [SendIssued 0, SendIssued 1, SendSettled 1, PruneIssued 1, SendSettled 0,
                    PruneIssued 0, SendIssued 2, SendSettled 2, PruneIssued 2]\<rparr> \<and>
   batch_of 2 1 < batch_of 2 2 \<and>
   permanently_invalid failing_prune_env
     [example_message ''t1'', example_message ''t2'', example_message ''t3''] 1 \<and>
   SendSettled 1 \<in> set [SendIssued 0, SendIssued 1, SendSettled 1, PruneIssued 1, SendSettled 0,
                         PruneIssued 0] \<and>
   PruneIssued 1 \<in> set [SendIssued 0, SendIssued 1, SendSettled 1, PruneIssued 1, SendSettled 0,
                         PruneIssued 0] \<and>
   batch_of 2 0 = batch_of 2 1 \<and>
   SendIssued 0 \<in> set [SendIssued 0, SendIssued 1]"
proof -
  let ?ms = "[example_message ''t1'', example_message ''t2'', example_message ''t3'']"
  let ?s = "\<lparr>next_index = 4, suspended = False, in_flight = [], pruning = [1, 0, 2],
          events = [SendIssued 0, SendIssued 1, SendSettled 1, PruneIssued 1, SendSettled 0,
                    PruneIssued 0, SendIssued 2, SendSettled 2, PruneIssued 2]\<rparr>"
  have pos: "(0::nat) < 2" by simp
  have r: "run 2 failing_prune_env ?ms
     [Begin, Settle 1, Settle 0, Resume, Begin, Settle 2, Resume] start = Some ?s"
    by (simp add: start_def slice_def permanently_invalid_def is_invalid_token_def)
  have b1: "batch_of 2 1 < batch_of 2 2" by (simp add: batch_of_def)
  have b2: "batch_of 2 0 = batch_of 2 1" by (simp add: batch_of_def)
  have perm: "permanently_invalid failing_prune_env ?ms 1"
    by (simp add: permanently_invalid_def is_invalid_token_def)
  from batches_sequential [OF pos r, where j = 1 and j' = 2
      and pre = "[SendIssued 0, SendIssued 1, SendSettled 1, PruneIssued 1, SendSettled 0, PruneIssued 0]"
      and post = "[SendSettled 2, PruneIssued 2]"] b1 perm
  have c1: "SendSettled 1 \<in> set [SendIssued 0, SendIssued 1, SendSettled 1, PruneIssued 1,
                SendSettled 0, PruneIssued 0]"
    "PruneIssued 1 \<in> set [SendIssued 0, SendIssued 1, SendSettled 1, PruneIssued 1,
                SendSettled 0, PruneIssued 0]"
    by simp_all
  from batches_sequential [OF pos r, where k = 1 and k' = 0
      and pre = "[SendIssued 0, SendIssued 1]"
      and post = "[PruneIssued 1, SendSettled 0, PruneIssued 0, SendIssued 2, SendSettled 2,
                   PruneIssued 2]"] b2
  have c2: "SendIssued 0 \<in> set [SendIssued 0, SendIssued 1]"
    by simp
  from r b1 b2 perm c1 c2 show ?thesis by blast
qed

section \<open>The machine and the call log agree\<close>

text \<open>
  A run of the machine that reaches the end of the loop has issued the sends and the
  removal writes that the call log of \<open>bulk_dispatch\<close> lists.
\<close>

lemma issued_map [simp]: "[k. SendIssued k \<leftarrow> map SendIssued ks] = ks"
  by (induction ks) simp_all

lemma issued_map_comp [simp]:
  "concat (map ((\<lambda>ev. case ev of SendIssued k \<Rightarrow> [k] | _ \<Rightarrow> []) \<circ> SendIssued) ks) = ks"
  by (induction ks) simp_all

lemma issue_inv_step:
  assumes bs: "0 < bs" and inv: "loop_inv bs e ms s" and iss: "issue_inv bs e ms s"
    and st: "step bs e ms s a = Some s'"
  shows "issue_inv bs e ms s'"
proof (cases a)
  case Begin
  let ?i = "next_index s"
  let ?ks = "[?i ..< ?i + length (slice ms ?i (?i + bs))]"
  from st Begin have ns: "\<not> suspended s" and lt: "?i < length ms"
    and s': "s' = s\<lparr>suspended := True, in_flight := ?ks, events := events s @ map SendIssued ?ks\<rparr>"
    by (auto simp: Let_def split: if_splits)
  have len: "?i + length (slice ms ?i (?i + bs)) = min (?i + bs) (length ms)"
    using lt by (auto simp: length_slice min_def)
  have fl: "in_flight s = []" using inv ns unfolding loop_inv_def by blast
  have up: "[0..<?i] @ ?ks = [0 ..< min (?i + bs) (length ms)]"
    using upt_add_eq_append [of 0 ?i "length (slice ms ?i (?i + bs))"] by (simp add: len)
  have "[k. SendIssued k \<leftarrow> events s] = [0..<?i]"
    using iss ns lt unfolding issue_inv_def by (simp add: min_def)
  then have a: "[k. SendIssued k \<leftarrow> events s'] = [0 ..< min (?i + bs) (length ms)]"
    using up by (simp add: s')
  have old: "PruneIssued k \<in> set (events s) \<longleftrightarrow> k < ?i \<and> permanently_invalid e ms k" for k
    using iss ns lt fl unfolding issue_inv_def by (simp add: min_def)
  have pr: "PruneIssued k \<in> set (events s') \<longleftrightarrow> PruneIssued k \<in> set (events s)" for k
    by (auto simp: s')
  have rng: "k < min (?i + bs) (length ms) \<and> k \<notin> set ?ks \<longleftrightarrow> k < ?i" for k
    unfolding len using lt bs by auto
  have b: "PruneIssued k \<in> set (events s') \<longleftrightarrow>
        (k < min (?i + bs) (length ms) \<and> k \<notin> set ?ks) \<and> permanently_invalid e ms k" for k
    unfolding pr old rng ..
  have c: "suspended s' = True" "next_index s' = ?i" "in_flight s' = ?ks" by (simp_all add: s')
  show ?thesis unfolding issue_inv_def c using a b by simp
next
  case (Settle k)
  let ?b = "min (next_index s + bs) (length ms)"
  from st Settle have su: "suspended s" and k: "k \<in> set (in_flight s)"
    and ev: "events s' = events s @ (if permanently_invalid e ms k
                then [SendSettled k, PruneIssued k] else [SendSettled k])"
    and fl: "in_flight s' = removeAll k (in_flight s)"
    and same: "next_index s' = next_index s" "suspended s' = True"
    by (auto split: if_splits)
  from inv k have kb: "k < ?b" unfolding loop_inv_def by auto
  have a: "[j. SendIssued j \<leftarrow> events s'] = [0 ..< ?b]"
    using iss su unfolding issue_inv_def by (simp add: ev)
  have old: "PruneIssued j \<in> set (events s) \<longleftrightarrow>
      j < ?b \<and> j \<notin> set (in_flight s) \<and> permanently_invalid e ms j" for j
    using iss su unfolding issue_inv_def by simp
  have b: "PruneIssued j \<in> set (events s') \<longleftrightarrow>
      j < ?b \<and> j \<notin> set (in_flight s') \<and> permanently_invalid e ms j" for j
  proof (cases "j = k")
    case True
    have "PruneIssued k \<notin> set (events s)" using old [of k] k by simp
    then have "PruneIssued k \<in> set (events s') \<longleftrightarrow> permanently_invalid e ms k"
      by (simp add: ev)
    then show ?thesis using True kb by (simp add: fl)
  next
    case False
    then have "PruneIssued j \<in> set (events s') \<longleftrightarrow> PruneIssued j \<in> set (events s)"
      by (simp add: ev)
    then show ?thesis using False old [of j] by (simp add: fl)
  qed
  show ?thesis unfolding issue_inv_def same using a b by simp
next
  case Resume
  from st Resume have su: "suspended s" and fl: "in_flight s = []"
    and s': "s' = s\<lparr>suspended := False, next_index := next_index s + bs\<rparr>"
    by (auto split: if_splits)
  show ?thesis using iss su unfolding issue_inv_def s' by simp
next
  case (Complete k)
  from st Complete have s': "s' = s\<lparr>pruning := removeAll k (pruning s),
                   events := events s @ [PruneCompleted k]\<rparr>"
    by (auto split: if_splits)
  show ?thesis using iss unfolding issue_inv_def s' by simp
qed

lemma issue_inv_run:
  assumes "0 < bs" "loop_inv bs e ms s" "issue_inv bs e ms s" "run bs e ms sched s = Some s'"
  shows "issue_inv bs e ms s'"
  using assms(2,3,4)
proof (induction sched arbitrary: s)
  case Nil
  then show ?case by simp
next
  case (Cons a sched)
  from Cons.prems(3) obtain s1 where s1: "step bs e ms s a = Some s1"
    and r: "run bs e ms sched s1 = Some s'" by (auto split: option.splits)
  from Cons.IH [OF loop_inv_step [OF assms(1) Cons.prems(1) s1]
      issue_inv_step [OF assms(1) Cons.prems(1,2) s1] r]
  show ?case .
qed

lemma machine_issues_the_log:
  assumes "0 < bs" "run bs e ms sched start = Some s" "\<not> suspended s" "length ms \<le> next_index s"
  shows "[k. SendIssued k \<leftarrow> events s] = [0 ..< length ms]"
    and "PruneIssued k \<in> set (events s) \<longleftrightarrow> k < length ms \<and> permanently_invalid e ms k"
proof -
  have "issue_inv bs e ms start" by (simp add: issue_inv_def start_def)
  from issue_inv_run [OF assms(1) loop_inv_start this assms(2)]
  have i: "issue_inv bs e ms s" .
  from loop_inv_run [OF assms(1) loop_inv_start assms(2)] assms(3)
  have fl: "in_flight s = []" unfolding loop_inv_def by blast
  from i assms(3,4) show "[k. SendIssued k \<leftarrow> events s] = [0 ..< length ms]"
    unfolding issue_inv_def by (simp add: min_def)
  from i assms(3,4) fl show "PruneIssued k \<in> set (events s) \<longleftrightarrow> k < length ms \<and> permanently_invalid e ms k"
    unfolding issue_inv_def by (simp add: min_def)
qed

lemma prune_call_of:
  "c \<in> set (snd (send_or_prune_everywhere e k (ms ! k))) \<longleftrightarrow>
   permanently_invalid e ms k \<and> c = UpdateMany (message.token (ms ! k))"
  by (cases "gateway e k (ms ! k)")
     (simp_all add: send_or_prune_everywhere_def permanently_invalid_def)

lemma prune_calls_of:
  "c \<in> set (concat (map (\<lambda>(k, m). snd (send_or_prune_everywhere e k m)) (enumerate 0 ms))) \<longleftrightarrow>
   (\<exists>k < length ms. permanently_invalid e ms k \<and> c = UpdateMany (message.token (ms ! k)))"
proof -
  have "c \<in> set (concat (map (\<lambda>(k, m). snd (send_or_prune_everywhere e k m)) (enumerate 0 ms))) \<longleftrightarrow>
      (\<exists>k < length ms. c \<in> set (snd (send_or_prune_everywhere e k (ms ! k))))"
  proof
    assume "c \<in> set (concat (map (\<lambda>(k, m). snd (send_or_prune_everywhere e k m)) (enumerate 0 ms)))"
    then obtain k m where "(k, m) \<in> set (enumerate 0 ms)"
      "c \<in> set (snd (send_or_prune_everywhere e k m))" by auto
    then show "\<exists>k < length ms. c \<in> set (snd (send_or_prune_everywhere e k (ms ! k)))"
      by (auto simp: in_set_enumerate_eq)
  next
    assume "\<exists>k < length ms. c \<in> set (snd (send_or_prune_everywhere e k (ms ! k)))"
    then obtain k where k: "k < length ms" "c \<in> set (snd (send_or_prune_everywhere e k (ms ! k)))"
      by blast
    then have "(k, ms ! k) \<in> set (enumerate 0 ms)" by (simp add: in_set_enumerate_eq)
    with k(2) show "c \<in> set (concat (map (\<lambda>(k, m). snd (send_or_prune_everywhere e k m)) (enumerate 0 ms)))"
      by force
  qed
  then show ?thesis by (simp add: prune_call_of)
qed

lemma machine_matches_log:
  assumes "0 < bs" "store_error e (Find ids) = None" "find_in st ids \<noteq> []"
    and "run bs e (bulk_messages t b d (find_in st ids)) sched start = Some s"
    and "\<not> suspended s" "length (bulk_messages t b d (find_in st ids)) \<le> next_index s"
  shows "\<exists>r calls. bulk_dispatch bs e st ids t b d = Some (r, calls) \<and>
           filter is_send calls =
             map (\<lambda>k. Send (bulk_messages t b d (find_in st ids) ! k)) [k. SendIssued k \<leftarrow> events s] \<and>
           (\<forall>c. c \<in> set calls \<and> \<not> is_send c \<and> c \<noteq> Find ids \<longleftrightarrow>
              (\<exists>k. PruneIssued k \<in> set (events s) \<and>
                 c = UpdateMany (message.token (bulk_messages t b d (find_in st ids) ! k))))"
proof -
  let ?ms = "bulk_messages t b d (find_in st ids)"
  from bulk_dispatch_Sent [OF assms(1,2,3), of t b d]
  obtain r calls where run: "bulk_dispatch bs e st ids t b d = Some (r, calls)"
    and sends: "filter is_send calls = map Send ?ms"
    and others: "filter (\<lambda>c. \<not> is_send c) calls =
       Find ids # concat (map (\<lambda>(k, m). snd (send_or_prune_everywhere e k m)) (enumerate 0 ?ms))"
    by blast
  note m = machine_issues_the_log [OF assms(1,4,5,6)]
  have a: "filter is_send calls = map (\<lambda>k. Send (?ms ! k)) [k. SendIssued k \<leftarrow> events s]"
  proof -
    have "map Send ?ms = map Send (map (\<lambda>k. ?ms ! k) [0 ..< length ?ms])"
      by (simp only: map_nth)
    then show ?thesis unfolding sends m(1) by (simp add: comp_def)
  qed
  have b: "c \<in> set calls \<and> \<not> is_send c \<and> c \<noteq> Find ids \<longleftrightarrow>
              (\<exists>k. PruneIssued k \<in> set (events s) \<and> c = UpdateMany (message.token (?ms ! k)))" for c
  proof -
    have "c \<in> set calls \<and> \<not> is_send c \<longleftrightarrow> c \<in> set (filter (\<lambda>c. \<not> is_send c) calls)"
      by auto
    also have "\<dots> \<longleftrightarrow> c = Find ids \<or>
        (\<exists>k < length ?ms. permanently_invalid e ?ms k \<and> c = UpdateMany (message.token (?ms ! k)))"
      by (simp only: others list.set(2) insert_iff prune_calls_of)
    finally show ?thesis unfolding m(2) by auto
  qed
  from run a b show ?thesis by blast
qed

end
